theory Spec2Isabelle
  imports Main "HOL-Library.Word"
begin

section \<open>JavaScript values used by compare-csv.js\<close>

text \<open>
  A JavaScript string is a sequence of UTF-16 code units. The program reads single code
  units (\<^verbatim>\<open>line[i]\<close>), compares them with \<^verbatim>\<open>'"'\<close> and \<^verbatim>\<open>','\<close>, splits on
  \<^verbatim>\<open>'\n'\<close> and trims, so a string is modelled as a list of 16-bit words. The function
  \<open>js\<close> turns an ASCII literal of the source into such a list.
\<close>

type_synonym jschar = "16 word"
type_synonym jsstring = "jschar list"

definition js :: "string \<Rightarrow> jsstring" where
  "js s = map of_char s"

definition dquote :: jschar where
  "dquote = 0x22"

definition comma :: jschar where
  "comma = 0x2C"

definition newline :: jschar where
  "newline = 0x0A"

text \<open>
  \<^verbatim>\<open>String.prototype.trim\<close> removes leading and trailing WhiteSpace and LineTerminator
  code points of ECMAScript: TAB, LF, VT, FF, CR, SP, NBSP, U+1680, U+2000..U+200A,
  U+2028, U+2029, U+202F, U+205F, U+3000 and U+FEFF.
\<close>

definition white_space :: "jschar list" where
  "white_space =
     [0x0009, 0x000A, 0x000B, 0x000C, 0x000D, 0x0020, 0x00A0, 0x1680,
      0x2000, 0x2001, 0x2002, 0x2003, 0x2004, 0x2005, 0x2006, 0x2007,
      0x2008, 0x2009, 0x200A, 0x2028, 0x2029, 0x202F, 0x205F, 0x3000, 0xFEFF]"

definition is_white_space :: "jschar \<Rightarrow> bool" where
  "is_white_space c = (c \<in> set white_space)"

definition trim :: "jsstring \<Rightarrow> jsstring" where
  "trim s = rev (dropWhile is_white_space (rev (dropWhile is_white_space s)))"

text \<open>
  \<^verbatim>\<open>s.split(sep)\<close> with a one-character separator: the pieces between the separators,
  so a string with \<open>n\<close> separators has \<open>n + 1\<close> pieces and the empty string has the single
  piece \<^verbatim>\<open>''\<close>.
\<close>

fun split_loop :: "jschar \<Rightarrow> jsstring \<Rightarrow> jsstring \<Rightarrow> jsstring list" where
  "split_loop sep [] piece = [piece]"
| "split_loop sep (c # cs) piece =
     (if c = sep then piece # split_loop sep cs [] else split_loop sep cs (piece @ [c]))"

definition split_str :: "jsstring \<Rightarrow> jschar \<Rightarrow> jsstring list" where
  "split_str s sep = split_loop sep s []"

text \<open>
  Reading \<^verbatim>\<open>xs[i]\<close>: the element, or \<^verbatim>\<open>undefined\<close> (here \<open>None\<close>) at an index beyond the
  end. \<^verbatim>\<open>row || []\<close> and \<^verbatim>\<open>cell || ''\<close> replace a falsy value by the default: every array
  is truthy, and the only falsy string is the empty one.
\<close>

definition js_index :: "'a list \<Rightarrow> nat \<Rightarrow> 'a option" where
  "js_index xs i = (if i < length xs then Some (xs ! i) else None)"

definition row_or_empty :: "jsstring list option \<Rightarrow> jsstring list" where
  "row_or_empty r = (case r of None \<Rightarrow> [] | Some row \<Rightarrow> row)"

definition cell_or_empty :: "jsstring option \<Rightarrow> jsstring" where
  "cell_or_empty c = (case c of None \<Rightarrow> [] | Some s \<Rightarrow> if s = [] then [] else s)"

text \<open>A non-negative integer in a template literal is rendered in decimal.\<close>

fun number_to_string :: "nat \<Rightarrow> jsstring" where
  "number_to_string n =
     (if n < 10 then [of_nat (48 + n)]
      else number_to_string (n div 10) @ [of_nat (48 + n mod 10)])"

declare number_to_string.simps [simp del]

section \<open>parseCSV\<close>

type_synonym row = "jsstring list"
type_synonym table = "row list"

text \<open>
  The body of the \<^verbatim>\<open>for\<close> loop over the characters of one line, with the three
  mutable locals \<^verbatim>\<open>result\<close>, \<^verbatim>\<open>current\<close> and \<^verbatim>\<open>inQuotes\<close> as arguments; the empty
  list is the end of the loop, where \<^verbatim>\<open>current.trim()\<close> is pushed.
\<close>

fun parse_line_loop :: "jsstring \<Rightarrow> row \<Rightarrow> jsstring \<Rightarrow> bool \<Rightarrow> row" where
  "parse_line_loop [] result current inQuotes = result @ [trim current]"
| "parse_line_loop (ch # rest) result current inQuotes =
     (if ch = dquote then parse_line_loop rest result current (\<not> inQuotes)
      else if ch = comma \<and> \<not> inQuotes then parse_line_loop rest (result @ [trim current]) [] inQuotes
      else parse_line_loop rest result (current @ [ch]) inQuotes)"

definition parse_line :: "jsstring \<Rightarrow> row" where
  "parse_line line = parse_line_loop line [] [] False"

definition parseCSV :: "jsstring \<Rightarrow> table" where
  "parseCSV content =
     map parse_line (filter (\<lambda>line. trim line \<noteq> []) (split_str content newline))"

section \<open>compareCSV\<close>

text \<open>
  The objects pushed on \<^verbatim>\<open>differences\<close>, one constructor per value of \<^verbatim>\<open>type\<close>, with
  the fields of the object literal in their order:
  \<^item> \<^verbatim>\<open>row_count\<close>: message;
  \<^item> \<^verbatim>\<open>missing_row\<close>: row, message, data;
  \<^item> \<^verbatim>\<open>column_count\<close>: row, message;
  \<^item> \<^verbatim>\<open>cell_difference\<close>: row, column, value1, value2, message.
  The lines written to the console are not part of the returned value and are left out.
\<close>

datatype difference =
    RowCount jsstring
  | MissingRow nat jsstring row
  | ColumnCount nat jsstring
  | CellDifference nat nat jsstring jsstring jsstring

definition row_count_message :: "jsstring \<Rightarrow> nat \<Rightarrow> jsstring \<Rightarrow> nat \<Rightarrow> jsstring" where
  "row_count_message file1Name n1 file2Name n2 =
     js ''Row count differs: '' @ file1Name @ js '' has '' @ number_to_string n1 @
     js '' rows, '' @ file2Name @ js '' has '' @ number_to_string n2 @ js '' rows''"

definition missing_row_message :: "nat \<Rightarrow> jsstring \<Rightarrow> jsstring" where
  "missing_row_message rowIndex fileName =
     js ''Row '' @ number_to_string (rowIndex + 1) @ js '' exists only in '' @ fileName"

definition column_count_message :: "nat \<Rightarrow> nat \<Rightarrow> nat \<Rightarrow> jsstring" where
  "column_count_message rowIndex n1 n2 =
     js ''Row '' @ number_to_string (rowIndex + 1) @ js '' has different column counts: '' @
     number_to_string n1 @ js '' vs '' @ number_to_string n2"

definition cell_message :: "nat \<Rightarrow> nat \<Rightarrow> jsstring \<Rightarrow> jsstring \<Rightarrow> jsstring" where
  "cell_message rowIndex colIndex cell1 cell2 =
     js ''Cell ('' @ number_to_string (rowIndex + 1) @ js '', '' @
     number_to_string (colIndex + 1) @ js ''): \"'' @ cell1 @ js ''\" vs \"'' @ cell2 @ js ''\"''"

text \<open>The inner loop over \<^verbatim>\<open>colIndex\<close>, appending to \<^verbatim>\<open>differences\<close>.\<close>

function compare_cells ::
  "row \<Rightarrow> row \<Rightarrow> nat \<Rightarrow> nat \<Rightarrow> nat \<Rightarrow> difference list \<Rightarrow> difference list" where
  "compare_cells row1 row2 rowIndex maxCols colIndex differences =
     (if colIndex < maxCols then
        let cell1 = cell_or_empty (js_index row1 colIndex);
            cell2 = cell_or_empty (js_index row2 colIndex)
        in compare_cells row1 row2 rowIndex maxCols (colIndex + 1)
             (if cell1 \<noteq> cell2
              then differences @
                   [CellDifference (rowIndex + 1) (colIndex + 1) cell1 cell2
                      (cell_message rowIndex colIndex cell1 cell2)]
              else differences)
      else differences)"
  by pat_completeness auto
termination
  by (relation "measure (\<lambda>(row1, row2, rowIndex, maxCols, colIndex, differences). maxCols - colIndex)")
     auto

declare compare_cells.simps [simp del]

text \<open>
  The outer loop over \<^verbatim>\<open>rowIndex\<close>. The two \<^verbatim>\<open>continue\<close> statements are the first two
  branches; the third is the rest of the loop body.
\<close>

function compare_rows ::
  "table \<Rightarrow> table \<Rightarrow> jsstring \<Rightarrow> jsstring \<Rightarrow> nat \<Rightarrow> nat \<Rightarrow> difference list \<Rightarrow> difference list" where
  "compare_rows csv1 csv2 file1Name file2Name maxRows rowIndex differences =
     (if rowIndex < maxRows then
        let row1 = row_or_empty (js_index csv1 rowIndex);
            row2 = row_or_empty (js_index csv2 rowIndex);
            maxCols = max (length row1) (length row2)
        in if js_index csv1 rowIndex = None then
             compare_rows csv1 csv2 file1Name file2Name maxRows (rowIndex + 1)
               (differences @
                [MissingRow (rowIndex + 1) (missing_row_message rowIndex file2Name) row2])
           else if js_index csv2 rowIndex = None then
             compare_rows csv1 csv2 file1Name file2Name maxRows (rowIndex + 1)
               (differences @
                [MissingRow (rowIndex + 1) (missing_row_message rowIndex file1Name) row1])
           else
             compare_rows csv1 csv2 file1Name file2Name maxRows (rowIndex + 1)
               (compare_cells row1 row2 rowIndex maxCols 0
                  (if length row1 \<noteq> length row2
                   then differences @
                        [ColumnCount (rowIndex + 1)
                           (column_count_message rowIndex (length row1) (length row2))]
                   else differences))
      else differences)"
  by pat_completeness auto
termination
  by (relation "measure (\<lambda>(csv1, csv2, file1Name, file2Name, maxRows, rowIndex, differences).
                           maxRows - rowIndex)")
     auto

declare compare_rows.simps [simp del]

definition compareCSV :: "table \<Rightarrow> table \<Rightarrow> jsstring \<Rightarrow> jsstring \<Rightarrow> difference list" where
  "compareCSV csv1 csv2 file1Name file2Name =
     (let maxRows = max (length csv1) (length csv2);
          differences =
            (if length csv1 \<noteq> length csv2
             then [RowCount (row_count_message file1Name (length csv1) file2Name (length csv2))]
             else [])
      in compare_rows csv1 csv2 file1Name file2Name maxRows 0 differences)"

section \<open>main\<close>

text \<open>
  What \<^verbatim>\<open>main\<close> sees of the outside world. A path names no file, a file that exists
  and whose \<^verbatim>\<open>readFileSync\<close> throws (a directory, a file without read permission), or a
  file with its decoded text. \<^verbatim>\<open>writeFileSync\<close> to a path succeeds or throws.
  \<^verbatim>\<open>path.basename\<close> and the clock are functions of the platform.
\<close>

datatype file_state = Absent | Unreadable | Readable jsstring

record environment =
  env_files :: "jsstring \<Rightarrow> file_state"
  env_write_throws :: "jsstring \<Rightarrow> bool"
  env_basename :: "jsstring \<Rightarrow> jsstring"
  env_now :: jsstring

definition existsSync :: "environment \<Rightarrow> jsstring \<Rightarrow> bool" where
  "existsSync env p = (env_files env p \<noteq> Absent)"

definition readFileSync :: "environment \<Rightarrow> jsstring \<Rightarrow> jsstring option" where
  "readFileSync env p = (case env_files env p of Readable text \<Rightarrow> Some text | _ \<Rightarrow> None)"

text \<open>The object \<^verbatim>\<open>{timestamp, totalDifferences, differences}\<close> of \<^verbatim>\<open>saveDifferencesToFile\<close>.\<close>

datatype report = Report jsstring nat "difference list"

definition saveDifferencesToFile ::
  "environment \<Rightarrow> difference list \<Rightarrow> jsstring \<Rightarrow> report option" where
  "saveDifferencesToFile env differences outputFile =
     (let report = Report (env_now env) (length differences) differences
      in if env_write_throws env outputFile then None else Some report)"

text \<open>
  The result of a run: the code given to \<^verbatim>\<open>process.exit\<close> and the report written, if
  one was. An exception inside the \<^verbatim>\<open>try\<close> block (\<open>None\<close> from a read or from the
  write) ends in the \<^verbatim>\<open>catch\<close> clause, which exits with 1.
\<close>

record outcome =
  exit_code :: nat
  written :: "(jsstring \<times> report) option"

text \<open>\<^verbatim>\<open>args[2] || null\<close>: the third argument, unless it is absent or the empty string.\<close>

definition output_file_arg :: "jsstring list \<Rightarrow> jsstring option" where
  "output_file_arg args =
     (case js_index args 2 of None \<Rightarrow> None | Some a \<Rightarrow> if a = [] then None else Some a)"

definition main :: "environment \<Rightarrow> jsstring list \<Rightarrow> outcome" where
  "main env args =
     (if length args < 2 then \<lparr>exit_code = 1, written = None\<rparr>
      else
        let file1Path = args ! 0;
            file2Path = args ! 1;
            outputFile = output_file_arg args
        in if \<not> existsSync env file1Path then \<lparr>exit_code = 1, written = None\<rparr>
           else if \<not> existsSync env file2Path then \<lparr>exit_code = 1, written = None\<rparr>
           else
             (case readFileSync env file1Path of
                None \<Rightarrow> \<lparr>exit_code = 1, written = None\<rparr>
              | Some content1 \<Rightarrow>
                  (case readFileSync env file2Path of
                     None \<Rightarrow> \<lparr>exit_code = 1, written = None\<rparr>
                   | Some content2 \<Rightarrow>
                       let csv1 = parseCSV content1;
                           csv2 = parseCSV content2;
                           differences =
                             compareCSV csv1 csv2
                               (env_basename env file1Path) (env_basename env file2Path)
                       in (case outputFile of
                             None \<Rightarrow>
                               \<lparr>exit_code = (if length differences > 0 then 1 else 0),
                                written = None\<rparr>
                           | Some out \<Rightarrow>
                               (case saveDifferencesToFile env differences out of
                                  None \<Rightarrow> \<lparr>exit_code = 1, written = None\<rparr>
                                | Some rep \<Rightarrow>
                                    \<lparr>exit_code = (if length differences > 0 then 1 else 0),
                                     written = Some (out, rep)\<rparr>)))))"

section \<open>Notions used in the statements\<close>

text \<open>
  The value compared at a column: the cell, or the empty string where the row is too
  short. The records of one row and of a range of columns, written as list expressions;
  the lemmas below show that the loops compute them.
\<close>

definition defaulted_cell :: "row \<Rightarrow> nat \<Rightarrow> jsstring" where
  "defaulted_cell r c = (if c < length r then r ! c else [])"

definition cell_records :: "row \<Rightarrow> row \<Rightarrow> nat \<Rightarrow> nat list \<Rightarrow> difference list" where
  "cell_records row1 row2 rowIndex cols =
     map (\<lambda>c. CellDifference (rowIndex + 1) (c + 1) (defaulted_cell row1 c) (defaulted_cell row2 c)
                (cell_message rowIndex c (defaulted_cell row1 c) (defaulted_cell row2 c)))
         (filter (\<lambda>c. defaulted_cell row1 c \<noteq> defaulted_cell row2 c) cols)"

definition row_records :: "table \<Rightarrow> table \<Rightarrow> jsstring \<Rightarrow> jsstring \<Rightarrow> nat \<Rightarrow> difference list" where
  "row_records csv1 csv2 file1Name file2Name i =
     (if length csv1 \<le> i then
        [MissingRow (i + 1) (missing_row_message i file2Name) (if i < length csv2 then csv2 ! i else [])]
      else if length csv2 \<le> i then
        [MissingRow (i + 1) (missing_row_message i file1Name) (csv1 ! i)]
      else
        (if length (csv1 ! i) \<noteq> length (csv2 ! i)
         then [ColumnCount (i + 1) (column_count_message i (length (csv1 ! i)) (length (csv2 ! i)))]
         else []) @
        cell_records (csv1 ! i) (csv2 ! i) i [0..<max (length (csv1 ! i)) (length (csv2 ! i))])"

text \<open>
  The 1-based row a record reports (none for the row-count record), and the order in
  which records are discovered: the row-count record before everything else, then by row,
  within a row the column-count record before the cell records, and these by column.
\<close>

fun row_of :: "difference \<Rightarrow> nat option" where
  "row_of (RowCount m) = None"
| "row_of (MissingRow r m d) = Some r"
| "row_of (ColumnCount r m) = Some r"
| "row_of (CellDifference r c v1 v2 m) = Some r"

fun row_number :: "difference \<Rightarrow> nat" where
  "row_number (RowCount m) = 0"
| "row_number (MissingRow r m d) = r"
| "row_number (ColumnCount r m) = r"
| "row_number (CellDifference r c v1 v2 m) = r"

fun discovered_before :: "difference \<Rightarrow> difference \<Rightarrow> bool" where
  "discovered_before a (RowCount m) = False"
| "discovered_before (RowCount m) b = True"
| "discovered_before (CellDifference r c v1 v2 m) (CellDifference r' c' v1' v2' m') =
     (r < r' \<or> (r = r' \<and> c < c'))"
| "discovered_before (ColumnCount r m) (CellDifference r' c' v1' v2' m') = (r \<le> r')"
| "discovered_before a b = (row_number a < row_number b)"

text \<open>
  The conditions of a run that the exit code depends on: the usage error; a missing input
  file; an exception of \<^verbatim>\<open>readFileSync\<close>, raised when both files exist and one cannot be
  read; an exception of \<^verbatim>\<open>writeFileSync\<close>, raised when both files were read, a report
  is requested and writing it throws; and the differences found when both files were
  read (none when the comparison is not reached).
\<close>

definition usage_error :: "jsstring list \<Rightarrow> bool" where
  "usage_error args = (length args < 2)"

definition missing_file :: "environment \<Rightarrow> jsstring list \<Rightarrow> bool" where
  "missing_file env args =
     (2 \<le> length args \<and> (\<not> existsSync env (args ! 0) \<or> \<not> existsSync env (args ! 1)))"

definition read_exception :: "environment \<Rightarrow> jsstring list \<Rightarrow> bool" where
  "read_exception env args =
     (2 \<le> length args \<and> existsSync env (args ! 0) \<and> existsSync env (args ! 1) \<and>
      (readFileSync env (args ! 0) = None \<or> readFileSync env (args ! 1) = None))"

definition write_exception :: "environment \<Rightarrow> jsstring list \<Rightarrow> bool" where
  "write_exception env args =
     (2 \<le> length args \<and>
      readFileSync env (args ! 0) \<noteq> None \<and> readFileSync env (args ! 1) \<noteq> None \<and>
      (case output_file_arg args of None \<Rightarrow> False | Some out \<Rightarrow> env_write_throws env out))"

definition found_differences :: "environment \<Rightarrow> jsstring list \<Rightarrow> difference list" where
  "found_differences env args =
     (if 2 \<le> length args then
        (case (readFileSync env (args ! 0), readFileSync env (args ! 1)) of
           (Some content1, Some content2) \<Rightarrow>
             compareCSV (parseCSV content1) (parseCSV content2)
               (env_basename env (args ! 0)) (env_basename env (args ! 1))
         | _ \<Rightarrow> [])
      else [])"

text \<open>
  \<^verbatim>\<open>Array.prototype.join\<close> with a one-character separator. With it the serialization
  that claim C8 describes: a field that contains a comma is wrapped in double quotes, the
  fields of a row are joined with commas and the rows with newlines.
\<close>

fun join :: "jschar \<Rightarrow> jsstring list \<Rightarrow> jsstring" where
  "join sep [] = []"
| "join sep [x] = x"
| "join sep (x # y # ys) = x @ sep # join sep (y # ys)"

definition serialize_field :: "jsstring \<Rightarrow> jsstring" where
  "serialize_field f = (if comma \<in> set f then dquote # f @ [dquote] else f)"

definition serialize_row :: "row \<Rightarrow> jsstring" where
  "serialize_row r = join comma (map serialize_field r)"

definition serialize_table :: "table \<Rightarrow> jsstring" where
  "serialize_table t = join newline (map serialize_row t)"

text \<open>
  The scanner as the specification words it, a state of three components changed by one
  character at a time: a double quote toggles the flag; a comma outside quotes appends the
  trimmed accumulator to the fields and resets it; any other character is appended to
  the accumulator. At the end of the line the trimmed accumulator becomes the last field.
\<close>

record scanner =
  sc_fields :: row
  sc_current :: jsstring
  sc_inside :: bool

definition scan_start :: scanner where
  "scan_start = \<lparr>sc_fields = [], sc_current = [], sc_inside = False\<rparr>"

definition scan_char :: "scanner \<Rightarrow> jschar \<Rightarrow> scanner" where
  "scan_char st ch =
     (if ch = dquote then st\<lparr>sc_inside := \<not> sc_inside st\<rparr>
      else if ch = comma \<and> \<not> sc_inside st
      then st\<lparr>sc_fields := sc_fields st @ [trim (sc_current st)], sc_current := []\<rparr>
      else st\<lparr>sc_current := sc_current st @ [ch]\<rparr>)"

definition scan_end :: "scanner \<Rightarrow> row" where
  "scan_end st = sc_fields st @ [trim (sc_current st)]"

text \<open>
  The positions of the commas outside quotes: those with an even number of double
  quotes before them.
\<close>

definition unquoted_commas :: "jsstring \<Rightarrow> nat list" where
  "unquoted_commas line =
     filter (\<lambda>i. line ! i = comma \<and> even (count_list (take i line) dquote)) [0..<length line]"

text \<open>An environment with three small files and a directory, for concrete runs.\<close>

definition example_files :: "jsstring \<Rightarrow> file_state" where
  "example_files p =
     (if p = js ''old.csv'' then Readable (js ''Name,Age'' @ [newline] @ js ''Alice,30'')
      else if p = js ''same.csv'' then Readable (js ''Name, Age'' @ [newline, newline] @ js ''Alice,\"30\"'')
      else if p = js ''new.csv'' then Readable (js ''Name,Age'' @ [newline] @ js ''Alice,31'')
      else if p = js ''folder'' then Unreadable
      else Absent)"

definition example_env :: "bool \<Rightarrow> environment" where
  "example_env throws =
     \<lparr>env_files = example_files, env_write_throws = (\<lambda>p. throws),
      env_basename = (\<lambda>p. p), env_now = js ''2025-07-30T13:32:31.209Z''\<rparr>"

section \<open>The loops of compareCSV in closed form\<close>

lemma cell_or_empty_index: "cell_or_empty (js_index r c) = defaulted_cell r c"
  by (simp add: cell_or_empty_def js_index_def defaulted_cell_def)

lemma cell_records_Cons:
  "cell_records r1 r2 i (c # cs) =
     (if defaulted_cell r1 c \<noteq> defaulted_cell r2 c
      then [CellDifference (i + 1) (c + 1) (defaulted_cell r1 c) (defaulted_cell r2 c)
              (cell_message i c (defaulted_cell r1 c) (defaulted_cell r2 c))]
      else []) @ cell_records r1 r2 i cs"
  by (simp add: cell_records_def)

lemma compare_cells_closed:
  "compare_cells r1 r2 i m c ds = ds @ cell_records r1 r2 i [c..<m]"
proof (induction r1 r2 i m c ds rule: compare_cells.induct)
  case (1 row1 row2 rowIndex maxCols colIndex differences)
  show ?case
  proof (cases "colIndex < maxCols")
    case True
    define cell1 where "cell1 = cell_or_empty (js_index row1 colIndex)"
    define cell2 where "cell2 = cell_or_empty (js_index row2 colIndex)"
    define ds' where "ds' = (if cell1 \<noteq> cell2
              then differences @
                   [CellDifference (rowIndex + 1) (colIndex + 1) cell1 cell2
                      (cell_message rowIndex colIndex cell1 cell2)]
              else differences)"
    have upt: "[colIndex..<maxCols] = colIndex # [colIndex + 1..<maxCols]"
      using True by (simp add: upt_conv_Cons)
    have "compare_cells row1 row2 rowIndex maxCols colIndex differences =
          compare_cells row1 row2 rowIndex maxCols (colIndex + 1) ds'"
      by (subst compare_cells.simps) (simp add: True Let_def cell1_def cell2_def ds'_def)
    also have "\<dots> = ds' @ cell_records row1 row2 rowIndex [colIndex + 1..<maxCols]"
      unfolding ds'_def by (rule "1.IH"[OF True cell1_def cell2_def])
    also have "\<dots> = differences @ cell_records row1 row2 rowIndex [colIndex..<maxCols]"
      by (simp add: upt cell_records_Cons ds'_def cell1_def cell2_def cell_or_empty_index
               del: upt_Suc)
    finally show ?thesis .
  next
    case False
    then show ?thesis
      by (subst compare_cells.simps) (simp add: cell_records_def)
  qed
qed

lemma row_records_missing1:
  "length csv1 \<le> i \<Longrightarrow> row_records csv1 csv2 f1 f2 i =
     [MissingRow (i + 1) (missing_row_message i f2) (row_or_empty (js_index csv2 i))]"
  by (simp add: row_records_def row_or_empty_def js_index_def)

lemma row_records_missing2:
  "i < length csv1 \<Longrightarrow> length csv2 \<le> i \<Longrightarrow> row_records csv1 csv2 f1 f2 i =
     [MissingRow (i + 1) (missing_row_message i f1) (row_or_empty (js_index csv1 i))]"
  by (simp add: row_records_def row_or_empty_def js_index_def)

lemma row_records_both:
  "i < length csv1 \<Longrightarrow> i < length csv2 \<Longrightarrow> row_records csv1 csv2 f1 f2 i =
     (if length (csv1 ! i) \<noteq> length (csv2 ! i)
      then [ColumnCount (i + 1) (column_count_message i (length (csv1 ! i)) (length (csv2 ! i)))]
      else []) @
     cell_records (csv1 ! i) (csv2 ! i) i [0..<max (length (csv1 ! i)) (length (csv2 ! i))]"
  by (simp add: row_records_def)

lemma compare_rows_closed:
  "compare_rows csv1 csv2 f1 f2 m i ds =
     ds @ concat (map (row_records csv1 csv2 f1 f2) [i..<m])"
proof (induction csv1 csv2 f1 f2 m i ds rule: compare_rows.induct)
  case (1 csv1 csv2 file1Name file2Name maxRows rowIndex differences)
  show ?case
  proof (cases "rowIndex < maxRows")
    case False
    then show ?thesis by (subst compare_rows.simps) simp
  next
    case True
    define row1 where "row1 = row_or_empty (js_index csv1 rowIndex)"
    define row2 where "row2 = row_or_empty (js_index csv2 rowIndex)"
    define maxCols where "maxCols = max (length row1) (length row2)"
    note lets = row1_def row2_def maxCols_def
    have upt: "[rowIndex..<maxRows] = rowIndex # [rowIndex + 1..<maxRows]"
      using True by (simp add: upt_conv_Cons)
    have unfold: "ds @ concat (map (row_records csv1 csv2 file1Name file2Name) [rowIndex..<maxRows])
        = (ds @ row_records csv1 csv2 file1Name file2Name rowIndex) @
          concat (map (row_records csv1 csv2 file1Name file2Name) [rowIndex + 1..<maxRows])" for ds
      by (simp add: upt del: upt_Suc)
    consider (a) "length csv1 \<le> rowIndex"
      | (b) "rowIndex < length csv1" "length csv2 \<le> rowIndex"
      | (c) "rowIndex < length csv1" "rowIndex < length csv2"
      by linarith
    then show ?thesis
    proof cases
      case a
      then have n: "js_index csv1 rowIndex = None" by (simp add: js_index_def)
      have "compare_rows csv1 csv2 file1Name file2Name maxRows rowIndex differences =
            compare_rows csv1 csv2 file1Name file2Name maxRows (rowIndex + 1)
              (differences @ [MissingRow (rowIndex + 1) (missing_row_message rowIndex file2Name) row2])"
        by (subst compare_rows.simps) (simp add: True Let_def n lets)
      also have "\<dots> = (differences @ [MissingRow (rowIndex + 1) (missing_row_message rowIndex file2Name) row2]) @
          concat (map (row_records csv1 csv2 file1Name file2Name) [rowIndex + 1..<maxRows])"
        by (rule "1.IH"(1)[OF True row1_def row2_def maxCols_def n])
      finally show ?thesis
        by (simp only: unfold row_records_missing1[OF a] row2_def)
    next
      case b
      then have n1: "js_index csv1 rowIndex \<noteq> None" and n2: "js_index csv2 rowIndex = None"
        by (simp_all add: js_index_def)
      have "compare_rows csv1 csv2 file1Name file2Name maxRows rowIndex differences =
            compare_rows csv1 csv2 file1Name file2Name maxRows (rowIndex + 1)
              (differences @ [MissingRow (rowIndex + 1) (missing_row_message rowIndex file1Name) row1])"
        by (subst compare_rows.simps) (simp add: True Let_def n1 n2 lets)
      also have "\<dots> = (differences @ [MissingRow (rowIndex + 1) (missing_row_message rowIndex file1Name) row1]) @
          concat (map (row_records csv1 csv2 file1Name file2Name) [rowIndex + 1..<maxRows])"
        by (rule "1.IH"(2)[OF True row1_def row2_def maxCols_def n1 n2])
      finally show ?thesis
        by (simp only: unfold row_records_missing2[OF b] row1_def)
    next
      case c
      then have n1: "js_index csv1 rowIndex \<noteq> None" and n2: "js_index csv2 rowIndex \<noteq> None"
        by (simp_all add: js_index_def)
      have r1: "row1 = csv1 ! rowIndex" and r2: "row2 = csv2 ! rowIndex"
        using c by (simp_all add: lets row_or_empty_def js_index_def)
      define ds' where "ds' = compare_cells row1 row2 rowIndex maxCols 0
                  (if length row1 \<noteq> length row2
                   then differences @
                        [ColumnCount (rowIndex + 1)
                           (column_count_message rowIndex (length row1) (length row2))]
                   else differences)"
      have "compare_rows csv1 csv2 file1Name file2Name maxRows rowIndex differences =
            compare_rows csv1 csv2 file1Name file2Name maxRows (rowIndex + 1) ds'"
        by (subst compare_rows.simps) (simp add: True Let_def n1 n2 lets ds'_def)
      also have "\<dots> = ds' @
          concat (map (row_records csv1 csv2 file1Name file2Name) [rowIndex + 1..<maxRows])"
        unfolding ds'_def by (rule "1.IH"(3)[OF True row1_def row2_def maxCols_def n1 n2])
      also have "ds' = differences @ row_records csv1 csv2 file1Name file2Name rowIndex"
        by (simp add: ds'_def compare_cells_closed row_records_both[OF c] r1[symmetric] r2[symmetric] maxCols_def)
      finally show ?thesis
        by (simp only: unfold)
    qed
  qed
qed

lemma compareCSV_closed:
  "compareCSV csv1 csv2 f1 f2 =
     (if length csv1 \<noteq> length csv2
      then [RowCount (row_count_message f1 (length csv1) f2 (length csv2))] else []) @
     concat (map (row_records csv1 csv2 f1 f2) [0..<max (length csv1) (length csv2)])"
  by (simp add: compareCSV_def Let_def compare_rows_closed)

lemma cell_records_same: "cell_records r r i cols = []"
  by (simp add: cell_records_def)

lemma row_records_same: "i < length t \<Longrightarrow> row_records t t f1 f2 i = []"
  by (simp add: row_records_both cell_records_same)

lemma compareCSV_same: "compareCSV t t f1 f2 = []"
  by (simp add: compareCSV_closed row_records_same)

lemma cell_records_empty_iff:
  "cell_records r1 r2 i cols = [] \<longleftrightarrow> (\<forall>c\<in>set cols. defaulted_cell r1 c = defaulted_cell r2 c)"
  by (simp add: cell_records_def filter_empty_conv)

lemma row_records_empty:
  assumes "row_records csv1 csv2 f1 f2 i = []" "i < length csv1" "i < length csv2"
  shows "csv1 ! i = csv2 ! i"
proof -
  from assms have len: "length (csv1 ! i) = length (csv2 ! i)"
    and cells: "cell_records (csv1 ! i) (csv2 ! i) i [0..<max (length (csv1 ! i)) (length (csv2 ! i))] = []"
    by (auto simp add: row_records_both split: if_splits)
  show ?thesis
  proof (rule nth_equalityI[OF len])
    fix c assume c: "c < length (csv1 ! i)"
    with cells len have "defaulted_cell (csv1 ! i) c = defaulted_cell (csv2 ! i) c"
      by (simp add: cell_records_empty_iff)
    with c len show "csv1 ! i ! c = csv2 ! i ! c"
      by (simp add: defaulted_cell_def)
  qed
qed

lemma row_of_cell_records: "d \<in> set (cell_records r1 r2 i cols) \<Longrightarrow> row_of d = Some (Suc i)"
  by (auto simp add: cell_records_def)

lemma row_of_row_records: "d \<in> set (row_records csv1 csv2 f1 f2 i) \<Longrightarrow> row_of d = Some (Suc i)"
  by (auto simp add: row_records_def dest: row_of_cell_records split: if_splits)

lemma filter_row_records:
  "filter (\<lambda>d. row_of d = Some (Suc i)) (row_records csv1 csv2 f1 f2 j) =
     (if i = j then row_records csv1 csv2 f1 f2 j else [])"
proof (cases "i = j")
  case True
  then show ?thesis by (simp add: filter_id_conv row_of_row_records)
next
  case False
  then show ?thesis by (auto simp add: filter_empty_conv dest: row_of_row_records)
qed

lemma filter_rows_concat:
  "filter (\<lambda>d. row_of d = Some (Suc i)) (concat (map (row_records csv1 csv2 f1 f2) [0..<n])) =
     (if i < n then row_records csv1 csv2 f1 f2 i else [])"
proof (induction n)
  case 0
  then show ?case by simp
next
  case (Suc n)
  then show ?case by (auto simp add: filter_row_records)
qed

lemma filter_row_compareCSV:
  "filter (\<lambda>d. row_of d = Some (Suc i)) (compareCSV csv1 csv2 f1 f2) =
     (if i < max (length csv1) (length csv2) then row_records csv1 csv2 f1 f2 i else [])"
  by (simp add: compareCSV_closed filter_rows_concat)


lemma not_RowCount_before:
  "row_number a < row_number b \<Longrightarrow> discovered_before a b"
  by (cases a; cases b) auto

lemma sorted_cell_records: "sorted_wrt discovered_before (cell_records r1 r2 i [a..<b])"
proof -
  have "sorted_wrt (<) (filter (\<lambda>c. defaulted_cell r1 c \<noteq> defaulted_cell r2 c) [a..<b])"
    by (rule sorted_wrt_filter) simp
  then show ?thesis
    by (simp add: cell_records_def sorted_wrt_map)
qed

lemma sorted_row_records: "sorted_wrt discovered_before (row_records csv1 csv2 f1 f2 i)"
proof -
  have "discovered_before (ColumnCount (Suc i) m) d" if "d \<in> set (cell_records r1 r2 i cols)"
    for m d r1 r2 cols
    using that by (auto simp add: cell_records_def)
  then show ?thesis
    by (simp add: row_records_def sorted_cell_records)
qed

lemma row_number_row_records:
  "d \<in> set (row_records csv1 csv2 f1 f2 i) \<Longrightarrow> row_number d = i + 1"
  by (auto simp add: row_records_def cell_records_def split: if_splits)

lemma sorted_rows_concat:
  "sorted_wrt discovered_before (concat (map (row_records csv1 csv2 f1 f2) [0..<n]))"
proof (induction n)
  case 0
  then show ?case by simp
next
  case (Suc n)
  have "discovered_before a b"
    if "a \<in> set (row_records csv1 csv2 f1 f2 j)" "j < n" "b \<in> set (row_records csv1 csv2 f1 f2 n)"
    for a b j
    using that by (intro not_RowCount_before) (simp add: row_number_row_records)
  with Suc show ?case
    by (auto simp add: sorted_wrt_append sorted_row_records)
qed

section \<open>Facts about trim, split and the line scanner\<close>

lemma comma_not_white_space: "\<not> is_white_space comma"
  by (simp add: is_white_space_def white_space_def comma_def)

lemma dquote_not_white_space: "\<not> is_white_space dquote"
  by (simp add: is_white_space_def white_space_def dquote_def)

lemma comma_neq_newline: "comma \<noteq> newline"
  by (simp add: comma_def newline_def)

lemma comma_neq_dquote: "comma \<noteq> dquote"
  by (simp add: comma_def dquote_def)

lemma trim_Nil: "trim [] = []"
  by (simp add: trim_def)

lemma set_trim: "set (trim s) \<subseteq> set s"
proof -
  have "set (dropWhile P xs) \<subseteq> set xs" for P and xs :: jsstring
    by (auto dest: set_dropWhileD)
  then have "set (dropWhile is_white_space (rev (dropWhile is_white_space s))) \<subseteq> set s"
    by (metis set_rev subset_trans)
  then show ?thesis by (simp add: trim_def)
qed

lemma trim_eq_Nil: "trim s = [] \<longleftrightarrow> (\<forall>c\<in>set s. is_white_space c)"
proof
  assume "trim s = []"
  then have "\<forall>c\<in>set (dropWhile is_white_space s). is_white_space c"
    by (simp add: trim_def)
  then have "dropWhile is_white_space s = []"
    by (metis dropWhile_eq_Nil_conv hd_dropWhile hd_in_set)
  then show "\<forall>c\<in>set s. is_white_space c" by simp
next
  assume "\<forall>c\<in>set s. is_white_space c"
  then have "dropWhile is_white_space s = []" by simp
  then show "trim s = []" by (simp add: trim_def del: dropWhile_eq_Nil_conv)
qed

lemma trim_unchanged:
  assumes "s \<noteq> [] \<Longrightarrow> \<not> is_white_space (hd s) \<and> \<not> is_white_space (last s)"
  shows "trim s = s"
proof (cases "s = []")
  case True
  then show ?thesis by (simp add: trim_Nil)
next
  case False
  with assms have h: "\<not> is_white_space (hd s)" and l: "\<not> is_white_space (last s)" by simp_all
  from False h have 1: "dropWhile is_white_space s = s"
    by (simp add: dropWhile_eq_self_iff)
  from False l have 2: "dropWhile is_white_space (rev s) = rev s"
    by (simp add: dropWhile_eq_self_iff hd_rev)
  show ?thesis by (simp add: trim_def 1 2)
qed

lemma trim_ends:
  assumes "trim s \<noteq> []"
  shows "\<not> is_white_space (hd (trim s)) \<and> \<not> is_white_space (last (trim s))"
proof -
  define a where "a = dropWhile is_white_space s"
  define b where "b = dropWhile is_white_space (rev a)"
  have t: "trim s = rev b" by (simp add: trim_def a_def b_def)
  with assms have bne: "b \<noteq> []" by simp
  then have hb: "\<not> is_white_space (hd b)" unfolding b_def by (rule hd_dropWhile)
  from bne have ane: "a \<noteq> []" by (auto simp add: b_def)
  then have ha: "\<not> is_white_space (hd a)" unfolding a_def by (rule hd_dropWhile)
  from ha ane have "last (rev a) = hd a" by (simp add: last_rev)
  with ha ane have "last b = hd a"
    unfolding b_def by (metis dropWhile_last hd_in_set last_rev set_rev)
  with ha hb bne t show ?thesis by (simp add: hd_rev last_rev)
qed

lemma trim_idem: "trim (trim s) = trim s"
  by (rule trim_unchanged) (rule trim_ends)

lemma trim_not_Nil: "c \<in> set s \<Longrightarrow> \<not> is_white_space c \<Longrightarrow> trim s \<noteq> []"
  by (auto simp add: trim_eq_Nil)

lemma split_loop_not_Nil: "split_loop sep s p \<noteq> []"
  by (induction s arbitrary: p) auto

lemma join_split_loop: "join sep (split_loop sep s p) = p @ s"
proof (induction s arbitrary: p)
  case Nil
  then show ?case by simp
next
  case (Cons c cs)
  show ?case
  proof (cases "c = sep")
    case True
    obtain x xs where sp: "split_loop sep cs [] = x # xs"
      using split_loop_not_Nil[of sep cs "[]"] by (cases "split_loop sep cs []") auto
    have "join sep (x # xs) = cs" using Cons[of "[]"] sp by simp
    with True sp show ?thesis by simp
  next
    case False
    with Cons[of "p @ [c]"] show ?thesis by simp
  qed
qed

lemma split_loop_pieces:
  "sep \<notin> set p \<Longrightarrow> \<forall>x\<in>set (split_loop sep s p). sep \<notin> set x"
proof (induction s arbitrary: p)
  case Nil
  then show ?case by simp
next
  case (Cons c cs)
  have a: "\<forall>x\<in>set (split_loop sep cs []). sep \<notin> set x"
    by (rule Cons.IH) simp
  have b: "c \<noteq> sep \<Longrightarrow> \<forall>x\<in>set (split_loop sep cs (p @ [c])). sep \<notin> set x"
    using Cons.prems by (intro Cons.IH) simp
  from a b Cons.prems show ?case by simp
qed

lemma length_split_loop: "length (split_loop sep s p) = count_list s sep + 1"
  by (induction s arbitrary: p) auto

lemma split_loop_no_sep:
  "sep \<notin> set a \<Longrightarrow> split_loop sep (a @ rest) p = split_loop sep rest (p @ a)"
  by (induction a arbitrary: p) auto

lemma split_loop_join:
  "xs \<noteq> [] \<Longrightarrow> \<forall>x\<in>set xs. sep \<notin> set x \<Longrightarrow>
   split_loop sep (join sep xs) p = (p @ hd xs) # tl xs"
proof (induction sep xs arbitrary: p rule: join.induct)
  case (1 sep)
  then show ?case by simp
next
  case (2 sep x)
  then show ?case using split_loop_no_sep[of sep x "[]" p] by simp
next
  case (3 sep x y ys)
  have "split_loop sep (x @ sep # join sep (y # ys)) p =
        split_loop sep (sep # join sep (y # ys)) (p @ x)"
    using 3 by (simp add: split_loop_no_sep)
  also have "\<dots> = (p @ x) # split_loop sep (join sep (y # ys)) []"
    by simp
  also have "split_loop sep (join sep (y # ys)) [] = y # ys"
    using 3 by simp
  finally show ?case by simp
qed

lemma split_str_join:
  "xs \<noteq> [] \<Longrightarrow> \<forall>x\<in>set xs. sep \<notin> set x \<Longrightarrow> split_str (join sep xs) sep = xs"
  by (simp add: split_str_def split_loop_join)

lemma set_join: "set (join sep xs) \<subseteq> insert sep (\<Union> (set ` set xs))"
  by (induction sep xs rule: join.induct) auto

lemma sep_in_join: "2 \<le> length xs \<Longrightarrow> sep \<in> set (join sep xs)"
  by (induction sep xs rule: join.induct) auto

lemma parse_line_loop_result:
  "parse_line_loop cs res cur q = res @ parse_line_loop cs [] cur q"
proof (induction cs arbitrary: res cur q)
  case Nil
  then show ?case by simp
next
  case (Cons c cs)
  show ?case
  proof (cases "c \<noteq> dquote \<and> c = comma \<and> \<not> q")
    case True
    then show ?thesis
      using Cons[of "res @ [trim cur]" "[]" q] Cons[of "[trim cur]" "[]" q]
      by (simp add: comma_neq_dquote)
  next
    case False
    then show ?thesis
      using Cons[of res cur "\<not> q"] Cons[of res "cur @ [c]" q] by auto
  qed
qed

lemma parse_line_loop_not_Nil: "parse_line_loop cs res cur q \<noteq> []"
  by (induction cs arbitrary: res cur q) auto

lemma parse_line_loop_fields:
  "f \<in> set (parse_line_loop cs res cur q) \<Longrightarrow>
   f \<in> set res \<or> (\<exists>u. f = trim u \<and> set u \<subseteq> set cur \<union> (set cs - {dquote}))"
proof (induction cs arbitrary: res cur q)
  case Nil
  then show ?case by auto
next
  case (Cons c cs)
  consider (quote) "c = dquote"
    | (sep) "c \<noteq> dquote" "c = comma" "\<not> q"
    | (other) "c \<noteq> dquote" "\<not> (c = comma \<and> \<not> q)"
    by blast
  then show ?case
  proof cases
    case quote
    with Cons.prems have "f \<in> set (parse_line_loop cs res cur (\<not> q))" by simp
    from Cons.IH[OF this] show ?thesis by auto
  next
    case sep
    with Cons.prems have "f \<in> set (parse_line_loop cs (res @ [trim cur]) [] q)" by simp
    from Cons.IH[OF this] show ?thesis by auto
  next
    case other
    with Cons.prems have "f \<in> set (parse_line_loop cs res (cur @ [c]) q)" by auto
    from Cons.IH[OF this] other show ?thesis by auto
  qed
qed

lemma parse_line_fields:
  assumes "f \<in> set (parse_line line)"
  shows "trim f = f \<and> dquote \<notin> set f \<and> set f \<subseteq> set line"
proof -
  from assms obtain u where u: "f = trim u" "set u \<subseteq> set line - {dquote}"
    using parse_line_loop_fields[of f line "[]" "[]" False] by (auto simp add: parse_line_def)
  with set_trim[of u] show ?thesis by (auto simp add: trim_idem)
qed

lemma parse_line_loop_no_quote:
  "dquote \<notin> set cs \<Longrightarrow>
   parse_line_loop cs res cur False = res @ map trim (split_loop comma cs cur)"
proof (induction cs arbitrary: res cur)
  case Nil
  then show ?case by simp
next
  case (Cons c cs)
  then show ?case by (cases "c = comma") auto
qed

lemma parse_line_no_quote:
  "dquote \<notin> set line \<Longrightarrow> parse_line line = map trim (split_str line comma)"
  by (simp add: parse_line_def split_str_def parse_line_loop_no_quote)

lemma split_str_newline_free:
  "line \<in> set (split_str content newline) \<Longrightarrow> newline \<notin> set line"
  using split_loop_pieces[of newline "[]" content] by (simp add: split_str_def)

lemma split_str_subset:
  assumes "line \<in> set (split_str content sep)"
  shows "set line \<subseteq> set content"
proof -
  have "set (join sep xs) \<supseteq> set x" if "x \<in> set xs" for x xs
    using that by (induction sep xs rule: join.induct) auto
  from this[OF assms] show ?thesis
    by (simp add: split_str_def join_split_loop)
qed

lemma serialized_row:
  assumes q: "dquote \<notin> set line" and nl: "newline \<notin> set line" and ne: "trim line \<noteq> []"
  shows "newline \<notin> set (serialize_row (parse_line line)) \<and>
         trim (serialize_row (parse_line line)) \<noteq> [] \<and>
         parse_line (serialize_row (parse_line line)) = parse_line line"
proof -
  define pieces where "pieces = split_str line comma"
  define r where "r = parse_line line"
  have r: "r = map trim pieces"
    using q by (simp add: r_def pieces_def parse_line_no_quote)
  have pieces_ne: "pieces \<noteq> []"
    by (simp add: pieces_def split_str_def split_loop_not_Nil)
  have piece: "comma \<notin> set p \<and> set p \<subseteq> set line" if "p \<in> set pieces" for p
    using that split_loop_pieces[of comma "[]" line] split_str_subset[of p line comma]
    by (simp add: pieces_def split_str_def)
  have field: "comma \<notin> set f \<and> set f \<subseteq> set line \<and> trim f = f" if "f \<in> set r" for f
  proof -
    from that obtain p where "p \<in> set pieces" "f = trim p" by (auto simp add: r)
    with piece[of p] set_trim[of p] show ?thesis by (auto simp add: trim_idem)
  qed
  have "map serialize_field r = r"
    by (rule map_idI) (simp add: serialize_field_def field)
  then have ser: "serialize_row r = join comma r" by (simp add: serialize_row_def)
  have sub: "set (join comma r) \<subseteq> insert comma (set line)"
    using set_join[of comma r] field by auto
  have 1: "newline \<notin> set (join comma r)"
    using sub nl comma_neq_newline by auto
  have dq: "dquote \<notin> set (join comma r)"
    using sub q comma_neq_dquote by auto
  have r_ne: "r \<noteq> []" using pieces_ne by (simp add: r)
  have "parse_line (join comma r) = map trim (split_str (join comma r) comma)"
    using dq by (rule parse_line_no_quote)
  also have "split_str (join comma r) comma = r"
    using r_ne field by (intro split_str_join) auto
  also have "map trim r = r"
    by (rule map_idI) (simp add: field)
  finally have 3: "parse_line (join comma r) = r" .
  have 2: "trim (join comma r) \<noteq> []"
  proof (cases "2 \<le> length r")
    case True
    then have "comma \<in> set (join comma r)" by (rule sep_in_join)
    then show ?thesis using comma_not_white_space by (rule trim_not_Nil)
  next
    case False
    with r_ne obtain p where p: "pieces = [p]"
      by (cases pieces; cases "tl pieces") (auto simp add: r)
    have "join comma pieces = line"
      by (simp add: pieces_def split_str_def join_split_loop)
    with p have "p = line" by simp
    with p have "join comma r = trim line" by (simp add: r)
    with ne show ?thesis by (simp add: trim_idem)
  qed
  from 1 2 3 show ?thesis by (simp add: ser r_def[symmetric])
qed

lemma parse_line_loop_foldl:
  "parse_line_loop cs res cur q =
     scan_end (foldl scan_char \<lparr>sc_fields = res, sc_current = cur, sc_inside = q\<rparr> cs)"
proof (induction cs arbitrary: res cur q)
  case Nil
  then show ?case by (simp add: scan_end_def)
next
  case (Cons c cs)
  then show ?case by (simp add: scan_char_def)
qed

lemma scan_inside:
  "sc_inside (foldl scan_char st p) = (odd (count_list p dquote) \<noteq> sc_inside st)"
proof (induction p arbitrary: st)
  case Nil
  then show ?case by simp
next
  case (Cons c p)
  then show ?case by (auto simp add: scan_char_def)
qed

lemma length_parse_line_loop:
  "length (parse_line_loop cs res cur q) =
     length res + 1 +
     length (filter (\<lambda>i. cs ! i = comma \<and> (odd (count_list (take i cs) dquote) = q))
               [0..<length cs])"
proof (induction cs arbitrary: res cur q)
  case Nil
  then show ?case by simp
next
  case (Cons c cs)
  have upt: "[0..<Suc (length cs)] = 0 # map Suc [0..<length cs]"
    by (simp add: upt_conv_Cons map_Suc_upt del: upt_Suc)
  show ?case
  proof (cases "c = dquote")
    case True
    then show ?thesis
      using Cons[of res cur "\<not> q"]
      by (simp add: upt filter_map comp_def comma_neq_dquote[symmetric] del: upt_Suc)
  next
    case False
    then show ?thesis
      using Cons[of "res @ [trim cur]" "[]" q] Cons[of res "cur @ [c]" q]
      by (auto simp add: upt filter_map comp_def simp del: upt_Suc)
  qed
qed

lemma parse_line_loop_split:
  "(odd (count_list p dquote) \<noteq> q) = False \<Longrightarrow>
   parse_line_loop (p @ comma # rest) res cur q =
     parse_line_loop p res cur q @ parse_line_loop rest [] [] False"
proof (induction p arbitrary: res cur q)
  case Nil
  then have "\<not> q" by simp
  then show ?case
    using parse_line_loop_result[of rest "res @ [trim cur]" "[]" False]
    by (simp add: comma_neq_dquote)
next
  case (Cons c p)
  show ?case
  proof (cases "c = dquote")
    case True
    with Cons.prems have "(odd (count_list p dquote) \<noteq> (\<not> q)) = False" by auto
    from Cons.IH[OF this] True show ?thesis by simp
  next
    case False
    with Cons.prems have "(odd (count_list p dquote) \<noteq> q) = False" by auto
    from Cons.IH[OF this] False show ?thesis by (cases q) simp_all
  qed
qed

lemma parse_line_loop_one_field:
  "\<forall>p rest. cs = p @ comma # rest \<longrightarrow> (odd (count_list p dquote) \<noteq> q) \<Longrightarrow>
   parse_line_loop cs res cur q = res @ [trim (cur @ filter (\<lambda>c. c \<noteq> dquote) cs)]"
proof (induction cs arbitrary: res cur q)
  case Nil
  then show ?case by simp
next
  case (Cons c cs)
  show ?case
  proof (cases "c = dquote")
    case True
    have "\<forall>p rest. cs = p @ comma # rest \<longrightarrow> (odd (count_list p dquote) \<noteq> (\<not> q))"
    proof (intro allI impI)
      fix p rest assume "cs = p @ comma # rest"
      then have "c # cs = (c # p) @ comma # rest" by simp
      with Cons.prems have "odd (count_list (c # p) dquote) \<noteq> q" by blast
      with True show "odd (count_list p dquote) \<noteq> (\<not> q)" by simp
    qed
    from Cons.IH[OF this] True show ?thesis by simp
  next
    case False
    have inner: "\<forall>p rest. cs = p @ comma # rest \<longrightarrow> (odd (count_list p dquote) \<noteq> q)"
    proof (intro allI impI)
      fix p rest assume "cs = p @ comma # rest"
      then have "c # cs = (c # p) @ comma # rest" by simp
      with Cons.prems have "odd (count_list (c # p) dquote) \<noteq> q" by blast
      with False show "odd (count_list p dquote) \<noteq> q" by simp
    qed
    have "c = comma \<Longrightarrow> q"
    proof -
      assume "c = comma"
      then have "c # cs = [] @ comma # cs" by simp
      with Cons.prems have "odd (count_list [] dquote) \<noteq> q" by blast
      then show q by simp
    qed
    with Cons.IH[OF inner] False show ?thesis by auto
  qed
qed

lemma unquoted_commas_Nil:
  assumes "unquoted_commas line = []" "line = p @ comma # rest"
  shows "odd (count_list p dquote)"
proof -
  from assms(2) have "length p < length line" "line ! length p = comma" "take (length p) line = p"
    by simp_all
  with assms(1) show ?thesis
    by (auto simp add: unquoted_commas_def filter_empty_conv)
qed

section \<open>Claims about the parser\<close>

text \<open>
  Claim C5. Parsing a line is running the scanner of the specification from the state
  with no fields, an empty accumulator and the flag false, and appending the trimmed
  accumulator at the end, whatever the flag is then. After any prefix of the line the flag
  is true exactly when the prefix holds an odd number of double quotes, and no field
  contains a double quote. A comma outside quotes splits: the fields of the line are those
  of the text before it followed by those of the text after it. A line with no comma
  outside quotes is one field, its text without the quotes, trimmed; so a line has one
  field more than it has commas outside quotes.
\<close>

theorem parse_line_scanner:
  "parse_line line = scan_end (foldl scan_char scan_start line) \<and>
   sc_inside (foldl scan_char scan_start (take n line)) = odd (count_list (take n line) dquote) \<and>
   (\<forall>f\<in>set (parse_line line). dquote \<notin> set f) \<and>
   (even (count_list p dquote) \<longrightarrow>
      parse_line (p @ comma # rest) = parse_line p @ parse_line rest) \<and>
   (unquoted_commas line = [] \<longrightarrow>
      parse_line line = [trim (filter (\<lambda>c. c \<noteq> dquote) line)]) \<and>
   length (parse_line line) = length (unquoted_commas line) + 1"
proof -
  have "parse_line line = scan_end (foldl scan_char scan_start line)"
    by (simp add: parse_line_def scan_start_def parse_line_loop_foldl)
  moreover have "sc_inside (foldl scan_char scan_start (take n line)) =
      odd (count_list (take n line) dquote)"
    by (simp add: scan_inside scan_start_def)
  moreover have "\<forall>f\<in>set (parse_line line). dquote \<notin> set f"
    using parse_line_fields by blast
  moreover have "parse_line (p @ comma # rest) = parse_line p @ parse_line rest"
    if "even (count_list p dquote)"
    using that parse_line_loop_split[of p False rest "[]" "[]"] by (simp add: parse_line_def)
  moreover have "parse_line line = [trim (filter (\<lambda>c. c \<noteq> dquote) line)]"
    if "unquoted_commas line = []"
    using unquoted_commas_Nil[OF that] parse_line_loop_one_field[of line False "[]" "[]"]
    by (simp add: parse_line_def)
  moreover have "length (parse_line line) = length (unquoted_commas line) + 1"
    by (simp add: parse_line_def length_parse_line_loop unquoted_commas_def)
  ultimately show ?thesis by blast
qed

theorem parse_line_scanner_witness:
  "parse_line (js ''x, \"y,z\" ,\"w'') = [js ''x'', js ''y,z'', js ''w''] \<and>
   sc_inside (foldl scan_char scan_start (take 5 (js ''x, \"y,z\" ,\"w''))) \<and>
   dquote \<notin> set (js ''y,z'') \<and>
   unquoted_commas (js ''x, \"y,z\" ,\"w'') = [1, 9] \<and>
   even (count_list (js ''x, \"y,z\" '') dquote) \<and>
   parse_line (js ''x, \"y,z\" '' @ comma # js ''\"w'') =
     parse_line (js ''x, \"y,z\" '') @ parse_line (js ''\"w'') \<and>
   unquoted_commas (js '' \"y,z\" '') = [] \<and>
   parse_line (js '' \"y,z\" '') = [js ''y,z'']"
proof -
  have run: "scan_end (foldl scan_char scan_start (js ''x, \"y,z\" ,\"w'')) =
      [js ''x'', js ''y,z'', js ''w'']"
    by code_simp
  have odd: "odd (count_list (take 5 (js ''x, \"y,z\" ,\"w'')) dquote)"
    by code_simp
  have commas: "unquoted_commas (js ''x, \"y,z\" ,\"w'') = [1, 9]"
    by code_simp
  have even: "even (count_list (js ''x, \"y,z\" '') dquote)"
    by code_simp
  have none: "unquoted_commas (js '' \"y,z\" '') = []"
    by code_simp
  have field: "[trim (filter (\<lambda>c. c \<noteq> dquote) (js '' \"y,z\" ''))] = [js ''y,z'']"
    by code_simp
  note whole = parse_line_scanner[of "js ''x, \"y,z\" ,\"w''" 5 "js ''x, \"y,z\" ''" "js ''\"w''"]
  note part = parse_line_scanner[of "js '' \"y,z\" ''" 0 "[]" "[]"]
  have 1: "parse_line (js ''x, \"y,z\" ,\"w'') = [js ''x'', js ''y,z'', js ''w'']"
    by (rule trans[OF whole[THEN conjunct1] run])
  have 2: "sc_inside (foldl scan_char scan_start (take 5 (js ''x, \"y,z\" ,\"w'')))"
    by (rule iffD2[OF whole[THEN conjunct2, THEN conjunct1] odd])
  have "js ''y,z'' \<in> set [js ''x'', js ''y,z'', js ''w'']"
    by simp
  then have "js ''y,z'' \<in> set (parse_line (js ''x, \"y,z\" ,\"w''))"
    by (simp only: 1)
  then have 3: "dquote \<notin> set (js ''y,z'')"
    by (rule bspec[OF whole[THEN conjunct2, THEN conjunct2, THEN conjunct1]])
  have 4: "parse_line (js ''x, \"y,z\" '' @ comma # js ''\"w'') =
     parse_line (js ''x, \"y,z\" '') @ parse_line (js ''\"w'')"
    by (rule mp[OF whole[THEN conjunct2, THEN conjunct2, THEN conjunct2, THEN conjunct1] even])
  have "parse_line (js '' \"y,z\" '') = [trim (filter (\<lambda>c. c \<noteq> dquote) (js '' \"y,z\" ''))]"
    by (rule mp[OF part[THEN conjunct2, THEN conjunct2, THEN conjunct2, THEN conjunct2,
                        THEN conjunct1] none])
  then have 5: "parse_line (js '' \"y,z\" '') = [js ''y,z'']"
    by (rule trans[OF _ field])
  from 1 2 3 4 5 commas even none show ?thesis by blast
qed

text \<open>
  Claim C6. \<open>parseCSV\<close> is a function from strings to tables with no error value: the
  source has no \<^verbatim>\<open>throw\<close> and calls nothing that throws on a string, and its loops run
  over the characters of a finite string. Its rows are the parsed lines, in order, of
  those physical lines that are not empty after trimming. The physical lines are the
  pieces between the newlines: joined with newlines they give the input back, none of
  them contains a newline, and there is one more of them than there are newlines.
\<close>

theorem parseCSV_rows:
  "parseCSV content =
     map parse_line (filter (\<lambda>line. trim line \<noteq> []) (split_str content newline)) \<and>
   join newline (split_str content newline) = content \<and>
   (\<forall>line\<in>set (split_str content newline). newline \<notin> set line) \<and>
   length (split_str content newline) = count_list content newline + 1 \<and>
   length (parseCSV content) =
     length (filter (\<lambda>line. trim line \<noteq> []) (split_str content newline))"
  by (simp add: parseCSV_def split_str_newline_free)
     (simp add: split_str_def join_split_loop length_split_loop)

theorem parseCSV_rows_witness:
  "split_str (js ''a,b'' @ [newline, newline] @ js ''  '' @ [newline] @ js ''c'') newline =
     [js ''a,b'', [], js ''  '', js ''c''] \<and>
   parseCSV (js ''a,b'' @ [newline, newline] @ js ''  '' @ [newline] @ js ''c'') =
     [[js ''a'', js ''b''], [js ''c'']]"
proof -
  have lines:
    "split_str (js ''a,b'' @ [newline, newline] @ js ''  '' @ [newline] @ js ''c'') newline =
       [js ''a,b'', [], js ''  '', js ''c'']"
    by code_simp
  have rows:
    "map parse_line (filter (\<lambda>line. trim line \<noteq> []) [js ''a,b'', [], js ''  '', js ''c'']) =
       [[js ''a'', js ''b''], [js ''c'']]"
    by code_simp
  from parseCSV_rows[of "js ''a,b'' @ [newline, newline] @ js ''  '' @ [newline] @ js ''c''"]
       lines rows
  show ?thesis by simp
qed

text \<open>
  Claim C8. For an input without a double quote, serializing the parsed table and
  parsing the result gives the parsed table again.
\<close>

theorem parse_serialize_parse:
  assumes "dquote \<notin> set content"
  shows "parseCSV (serialize_table (parseCSV content)) = parseCSV content"
proof -
  define ls where "ls = filter (\<lambda>line. trim line \<noteq> []) (split_str content newline)"
  define ss where "ss = map (\<lambda>line. serialize_row (parse_line line)) ls"
  have t: "parseCSV content = map parse_line ls"
    by (simp add: parseCSV_def ls_def)
  have ser: "serialize_table (map parse_line ls) = join newline ss"
    by (simp add: serialize_table_def ss_def comp_def)
  have line: "newline \<notin> set (serialize_row (parse_line l)) \<and>
         trim (serialize_row (parse_line l)) \<noteq> [] \<and>
         parse_line (serialize_row (parse_line l)) = parse_line l" if "l \<in> set ls" for l
  proof (rule serialized_row)
    from that have l: "l \<in> set (split_str content newline)" and "trim l \<noteq> []"
      by (simp_all add: ls_def)
    then show "trim l \<noteq> []" by simp
    from l show "newline \<notin> set l" by (rule split_str_newline_free)
    from split_str_subset[OF l] assms show "dquote \<notin> set l" by auto
  qed
  show ?thesis
  proof (cases "ls = []")
    case True
    then show ?thesis
      by (simp add: t serialize_table_def) (simp add: parseCSV_def split_str_def trim_Nil)
  next
    case False
    then have "ss \<noteq> []" by (simp add: ss_def)
    moreover have "\<forall>s\<in>set ss. newline \<notin> set s" using line by (auto simp add: ss_def)
    ultimately have "split_str (join newline ss) newline = ss" by (rule split_str_join)
    moreover have "filter (\<lambda>line. trim line \<noteq> []) ss = ss"
      using line by (auto simp add: ss_def filter_id_conv)
    moreover have "map parse_line ss = map parse_line ls"
      using line by (simp add: ss_def)
    ultimately have "parseCSV (join newline ss) = map parse_line ls"
      by (simp add: parseCSV_def)
    then show ?thesis by (simp only: ser t)
  qed
qed

theorem parse_serialize_parse_witness:
  "dquote \<notin> set (js ''  a , b ,,'' @ [newline, newline] @ js '' x y '' @ [newline] @ js '','') \<and>
   parseCSV (serialize_table
     (parseCSV (js ''  a , b ,,'' @ [newline, newline] @ js '' x y '' @ [newline] @ js '',''))) =
   parseCSV (js ''  a , b ,,'' @ [newline, newline] @ js '' x y '' @ [newline] @ js '','')"
proof -
  have no_quote:
    "dquote \<notin> set (js ''  a , b ,,'' @ [newline, newline] @ js '' x y '' @ [newline] @ js '','')"
    by code_simp
  from parse_serialize_parse[OF no_quote] no_quote show ?thesis by simp
qed

text \<open>
  Claim C10. Every row of a parsed table has at least one field, and every field is equal
  to its own trim and contains neither a double quote nor the newline character U+000A
  on which the input is split.
\<close>

theorem parseCSV_fields:
  assumes "r \<in> set (parseCSV content)"
  shows "r \<noteq> [] \<and> (\<forall>f\<in>set r. trim f = f \<and> dquote \<notin> set f \<and> newline \<notin> set f)"
proof -
  from assms obtain line where line: "line \<in> set (split_str content newline)"
    and r: "r = parse_line line"
    by (auto simp add: parseCSV_def)
  from line have nl: "newline \<notin> set line" by (rule split_str_newline_free)
  have "r \<noteq> []" by (simp add: r parse_line_def parse_line_loop_not_Nil)
  moreover have "trim f = f \<and> dquote \<notin> set f \<and> newline \<notin> set f" if "f \<in> set r" for f
    using parse_line_fields[of f line] that nl by (auto simp add: r)
  ultimately show ?thesis by blast
qed

theorem parseCSV_fields_witness:
  "[js ''a'', js ''b c''] \<in> set (parseCSV (js '' a ,\"b c\" '' @ [newline])) \<and>
   [js ''a'', js ''b c''] \<noteq> [] \<and>
   trim (js ''b c'') = js ''b c'' \<and> dquote \<notin> set (js ''b c'') \<and> newline \<notin> set (js ''b c'')"
proof -
  have row: "[js ''a'', js ''b c''] \<in> set (parseCSV (js '' a ,\"b c\" '' @ [newline]))"
    by code_simp
  from parseCSV_fields[OF row] row show ?thesis by simp
qed

section \<open>Claims about the comparator and the exit code\<close>

text \<open>
  Claim C1, as amended. Two equal tables give the empty difference list. A run on two
  readable files whose parsed tables are equal exits with code 0 unless an output file is
  requested and writing it throws; then it exits with code 1: the write exception is
  caught by the \<^verbatim>\<open>catch\<close> clause, which exits with 1 whatever the comparison found.
\<close>

theorem equal_tables_exit_code:
  "compareCSV csv csv file1Name file2Name = [] \<and>
   (args = file1Path # file2Path # rest \<and>
    env_files env file1Path = Readable content1 \<and>
    env_files env file2Path = Readable content2 \<and>
    parseCSV content1 = parseCSV content2 \<longrightarrow>
    exit_code (main env args) = (if write_exception env args then 1 else 0))"
  by (simp add: compareCSV_same main_def Let_def existsSync_def readFileSync_def
        write_exception_def saveDifferencesToFile_def split: option.splits)

theorem equal_tables_exit_code_witness:
  "[js ''old.csv'', js ''same.csv'', js ''out.json''] =
     js ''old.csv'' # js ''same.csv'' # [js ''out.json''] \<and>
   env_files (example_env False) (js ''old.csv'') =
     Readable (js ''Name,Age'' @ [newline] @ js ''Alice,30'') \<and>
   env_files (example_env False) (js ''same.csv'') =
     Readable (js ''Name, Age'' @ [newline, newline] @ js ''Alice,\"30\"'') \<and>
   parseCSV (js ''Name,Age'' @ [newline] @ js ''Alice,30'') =
     parseCSV (js ''Name, Age'' @ [newline, newline] @ js ''Alice,\"30\"'') \<and>
   \<not> write_exception (example_env False) [js ''old.csv'', js ''same.csv'', js ''out.json''] \<and>
   exit_code (main (example_env False) [js ''old.csv'', js ''same.csv'', js ''out.json'']) = 0 \<and>
   write_exception (example_env True) [js ''old.csv'', js ''same.csv'', js ''report.json''] \<and>
   exit_code (main (example_env True) [js ''old.csv'', js ''same.csv'', js ''report.json'']) = 1"
proof -
  have files:
    "env_files (example_env b) (js ''old.csv'') =
       Readable (js ''Name,Age'' @ [newline] @ js ''Alice,30'')"
    "env_files (example_env b) (js ''same.csv'') =
       Readable (js ''Name, Age'' @ [newline, newline] @ js ''Alice,\"30\"'')" for b
    by (simp_all add: example_env_def example_files_def js_def)
  have tables:
    "parseCSV (js ''Name,Age'' @ [newline] @ js ''Alice,30'') =
       parseCSV (js ''Name, Age'' @ [newline, newline] @ js ''Alice,\"30\"'')"
    by code_simp
  have no_throw:
    "\<not> write_exception (example_env False) [js ''old.csv'', js ''same.csv'', js ''out.json'']"
    by code_simp
  have throw:
    "write_exception (example_env True) [js ''old.csv'', js ''same.csv'', js ''report.json'']"
    by code_simp
  have zero:
    "exit_code (main (example_env False) [js ''old.csv'', js ''same.csv'', js ''out.json'']) = 0"
    using equal_tables_exit_code
         [where args = "[js ''old.csv'', js ''same.csv'', js ''out.json'']"
            and ?file1Path = "js ''old.csv''" and ?file2Path = "js ''same.csv''"
            and rest = "[js ''out.json'']" and env = "example_env False"
            and ?content1.0 = "js ''Name,Age'' @ [newline] @ js ''Alice,30''"
            and ?content2.0 = "js ''Name, Age'' @ [newline, newline] @ js ''Alice,\"30\"''"]
       files[of False] tables no_throw
    by simp
  have one:
    "exit_code (main (example_env True) [js ''old.csv'', js ''same.csv'', js ''report.json'']) = 1"
    using equal_tables_exit_code
         [where args = "[js ''old.csv'', js ''same.csv'', js ''report.json'']"
            and ?file1Path = "js ''old.csv''" and ?file2Path = "js ''same.csv''"
            and rest = "[js ''report.json'']" and env = "example_env True"
            and ?content1.0 = "js ''Name,Age'' @ [newline] @ js ''Alice,30''"
            and ?content2.0 = "js ''Name, Age'' @ [newline, newline] @ js ''Alice,\"30\"''"]
       files[of True] tables throw
    by simp
  from files[of False] tables no_throw zero throw one show ?thesis by simp
qed

text \<open>
  Claim C1 as stated fails: the two files below parse to equal tables, the third argument
  asks for a report, writing it throws, and the run exits with code 1.
\<close>

theorem equal_tables_write_failure:
  "env_files (example_env True) (js ''old.csv'') =
     Readable (js ''Name,Age'' @ [newline] @ js ''Alice,30'') \<and>
   env_files (example_env True) (js ''same.csv'') =
     Readable (js ''Name, Age'' @ [newline, newline] @ js ''Alice,\"30\"'') \<and>
   parseCSV (js ''Name,Age'' @ [newline] @ js ''Alice,30'') =
     parseCSV (js ''Name, Age'' @ [newline, newline] @ js ''Alice,\"30\"'') \<and>
   exit_code (main (example_env True) [js ''old.csv'', js ''same.csv'', js ''out.json'']) = 1"
  by code_simp

text \<open>
  Claim C2. The exit code of every run is 0 or 1; it is 1 exactly when fewer than two
  arguments were given, or an input file does not exist, or reading or writing throws, or
  the difference list is not empty, and 0 otherwise.
\<close>

theorem main_exit_code:
  "exit_code (main env args) =
     (if usage_error args \<or> missing_file env args \<or> read_exception env args \<or>
         write_exception env args \<or> found_differences env args \<noteq> []
      then 1 else 0)"
proof (cases "length args < 2")
  case True
  then show ?thesis by (simp add: main_def usage_error_def)
next
  case False
  then have two: "2 \<le> length args" "\<not> usage_error args"
    by (simp_all add: usage_error_def)
  note defs = main_def Let_def existsSync_def readFileSync_def missing_file_def
    read_exception_def write_exception_def found_differences_def saveDifferencesToFile_def
  show ?thesis
  proof (cases "env_files env (args ! 0)")
    case Absent
    with two show ?thesis by (simp add: defs)
  next
    case Unreadable
    with two show ?thesis by (cases "env_files env (args ! 1)") (simp_all add: defs)
  next
    case (Readable content1)
    with two show ?thesis
      by (cases "env_files env (args ! 1)") (simp_all add: defs split: option.splits)
  qed
qed

theorem main_exit_code_witness:
  "found_differences (example_env False) [js ''old.csv'', js ''new.csv''] =
     [CellDifference 2 2 (js ''30'') (js ''31'') (js ''Cell (2, 2): \"30\" vs \"31\"'')] \<and>
   exit_code (main (example_env False) [js ''old.csv'', js ''new.csv'']) = 1"
proof -
  have found: "found_differences (example_env False) [js ''old.csv'', js ''new.csv''] =
     [CellDifference 2 2 (js ''30'') (js ''31'') (js ''Cell (2, 2): \"30\" vs \"31\"'')]"
    by code_simp
  then have "found_differences (example_env False) [js ''old.csv'', js ''new.csv''] \<noteq> []"
    by simp
  with found main_exit_code[of "example_env False" "[js ''old.csv'', js ''new.csv'']"]
  show ?thesis by simp
qed

text \<open>
  Claim C3. When the second table is the first with one more row at the end, the
  difference list is the row-count record followed by one missing-row record, whose
  data is the extra row and whose message names the second file; there is no cell and
  no column-count record.
\<close>

theorem compareCSV_extra_row:
  "compareCSV t (t @ [r]) f1 f2 =
     [RowCount (row_count_message f1 (length t) f2 (length t + 1)),
      MissingRow (length t + 1) (missing_row_message (length t) f2) r]"
proof -
  have same: "row_records t (t @ [r]) f1 f2 i = []" if "i < length t" for i
    using that by (simp add: row_records_both nth_append cell_records_same)
  have last: "row_records t (t @ [r]) f1 f2 (length t) =
      [MissingRow (length t + 1) (missing_row_message (length t) f2) r]"
    by (simp add: row_records_def)
  show ?thesis
    by (simp add: compareCSV_closed same last)
qed

theorem compareCSV_extra_row_witness:
  "compareCSV [[js ''Bob'', js ''25'']] ([[js ''Bob'', js ''25'']] @ [[js ''Mike'', js ''40'']])
     (js ''a.csv'') (js ''b.csv'') =
   [RowCount (js ''Row count differs: a.csv has 1 rows, b.csv has 2 rows''),
    MissingRow 2 (js ''Row 2 exists only in b.csv'') [js ''Mike'', js ''40'']]"
proof -
  have "row_count_message (js ''a.csv'') (length [[js ''Bob'', js ''25'']]) (js ''b.csv'')
          (length [[js ''Bob'', js ''25'']] + 1) =
          js ''Row count differs: a.csv has 1 rows, b.csv has 2 rows''"
    and "missing_row_message (length [[js ''Bob'', js ''25'']]) (js ''b.csv'') =
          js ''Row 2 exists only in b.csv''"
    by code_simp+
  with compareCSV_extra_row[of "[[js ''Bob'', js ''25'']]" "[js ''Mike'', js ''40'']"
         "js ''a.csv''" "js ''b.csv''"]
  show ?thesis by simp
qed

text \<open>
  Claim C4. At a row present in both tables whose two rows differ in length, the records
  of that row are the column-count record followed by one cell record for each column
  below the larger length at which the two values differ, a cell beyond the end of the
  shorter row read as the empty string; the cell records are in column order and carry
  the two values.
\<close>

theorem column_count_row_records:
  assumes "i < length csv1" "i < length csv2" "length (csv1 ! i) \<noteq> length (csv2 ! i)"
  shows "filter (\<lambda>d. row_of d = Some (Suc i)) (compareCSV csv1 csv2 f1 f2) =
     ColumnCount (i + 1) (column_count_message i (length (csv1 ! i)) (length (csv2 ! i))) #
     map (\<lambda>c. CellDifference (i + 1) (c + 1) (defaulted_cell (csv1 ! i) c) (defaulted_cell (csv2 ! i) c)
                (cell_message i c (defaulted_cell (csv1 ! i) c) (defaulted_cell (csv2 ! i) c)))
         (filter (\<lambda>c. defaulted_cell (csv1 ! i) c \<noteq> defaulted_cell (csv2 ! i) c)
            [0..<max (length (csv1 ! i)) (length (csv2 ! i))])"
  using assms by (simp add: filter_row_compareCSV row_records_both cell_records_def)

theorem column_count_row_records_witness:
  "(0::nat) < length [[js ''x'', js ''y'']] \<and> (0::nat) < length [[js ''x'', js ''Y'', js ''z'']] \<and>
   length ([[js ''x'', js ''y'']] ! 0) \<noteq> length ([[js ''x'', js ''Y'', js ''z'']] ! 0) \<and>
   filter (\<lambda>d. row_of d = Some (0 + 1))
     (compareCSV [[js ''x'', js ''y'']] [[js ''x'', js ''Y'', js ''z'']] (js ''a'') (js ''b'')) =
   [ColumnCount 1 (js ''Row 1 has different column counts: 2 vs 3''),
    CellDifference 1 2 (js ''y'') (js ''Y'') (js ''Cell (1, 2): \"y\" vs \"Y\"''),
    CellDifference 1 3 [] (js ''z'') (js ''Cell (1, 3): \"\" vs \"z\"'')]"
proof -
  have hyps: "(0::nat) < length [[js ''x'', js ''y'']]"
    "(0::nat) < length [[js ''x'', js ''Y'', js ''z'']]"
    "length ([[js ''x'', js ''y'']] ! 0) \<noteq> length ([[js ''x'', js ''Y'', js ''z'']] ! 0)"
    by simp_all
  have rhs:
    "ColumnCount (0 + 1) (column_count_message 0 (length ([[js ''x'', js ''y'']] ! 0))
        (length ([[js ''x'', js ''Y'', js ''z'']] ! 0))) #
     map (\<lambda>c. CellDifference (0 + 1) (c + 1) (defaulted_cell ([[js ''x'', js ''y'']] ! 0) c)
                (defaulted_cell ([[js ''x'', js ''Y'', js ''z'']] ! 0) c)
                (cell_message 0 c (defaulted_cell ([[js ''x'', js ''y'']] ! 0) c)
                   (defaulted_cell ([[js ''x'', js ''Y'', js ''z'']] ! 0) c)))
         (filter (\<lambda>c. defaulted_cell ([[js ''x'', js ''y'']] ! 0) c \<noteq>
                       defaulted_cell ([[js ''x'', js ''Y'', js ''z'']] ! 0) c)
            [0..<max (length ([[js ''x'', js ''y'']] ! 0))
                     (length ([[js ''x'', js ''Y'', js ''z'']] ! 0))]) =
     [ColumnCount 1 (js ''Row 1 has different column counts: 2 vs 3''),
      CellDifference 1 2 (js ''y'') (js ''Y'') (js ''Cell (1, 2): \"y\" vs \"Y\"''),
      CellDifference 1 3 [] (js ''z'') (js ''Cell (1, 3): \"\" vs \"z\"'')]"
    by code_simp
  from column_count_row_records[OF hyps, of "js ''a''" "js ''b''"] rhs hyps
  show ?thesis by simp
qed

text \<open>
  Claim C7. The difference list is in discovery order: any record is
  \<open>discovered_before\<close> every later one. So the row-count record, if there is one, is
  first; records of a smaller row come before those of a larger row; within a row the
  column-count record comes before the cell records, and these are in increasing column
  order.
\<close>

theorem compareCSV_discovery_order: "sorted_wrt discovered_before (compareCSV csv1 csv2 f1 f2)"
proof -
  have "discovered_before (RowCount m) b"
    if "b \<in> set (concat (map (row_records csv1 csv2 f1 f2) [0..<n]))" for m b n
  proof -
    from that obtain j where "b \<in> set (row_records csv1 csv2 f1 f2 j)" by auto
    then have "row_number b = j + 1" by (rule row_number_row_records)
    then show ?thesis by (intro not_RowCount_before) simp
  qed
  then show ?thesis
    by (simp add: compareCSV_closed sorted_rows_concat)
qed

theorem compareCSV_discovery_order_witness:
  "sorted_wrt discovered_before
     (compareCSV [[js ''x'', js ''y''], [js ''u'']] [[js ''x'', js ''Y'', js ''z'']]
        (js ''a'') (js ''b''))"
  by (rule compareCSV_discovery_order)

text \<open>
  Claim C9. The comparator is complete: when it returns the empty list, the two tables
  are equal.
\<close>

theorem compareCSV_complete:
  assumes "compareCSV csv1 csv2 f1 f2 = []"
  shows "csv1 = csv2"
proof -
  from assms have len: "length csv1 = length csv2"
    by (auto simp add: compareCSV_closed split: if_splits)
  from assms len have rows: "\<forall>i<length csv1. row_records csv1 csv2 f1 f2 i = []"
    by (simp add: compareCSV_closed)
  show ?thesis
  proof (rule nth_equalityI[OF len])
    fix i assume "i < length csv1"
    with rows len show "csv1 ! i = csv2 ! i"
      by (auto intro: row_records_empty)
  qed
qed

theorem compareCSV_complete_witness:
  "compareCSV [[js ''x'', js ''y''], [js ''u'']] [[js ''x'', js ''y''], [js ''u'']]
     (js ''a'') (js ''b'') = [] \<and>
   [[js ''x'', js ''y''], [js ''u'']] = [[js ''x'', js ''y''], [js ''u'' :: jsstring]]"
proof -
  have empty: "compareCSV [[js ''x'', js ''y''], [js ''u'']] [[js ''x'', js ''y''], [js ''u'']]
     (js ''a'') (js ''b'') = []"
    by code_simp
  from compareCSV_complete[OF empty] empty show ?thesis by simp
qed


end
